theory Spec2Isabelle
  imports Main "HOL-Library.Word"
begin

unbundle bit_operations_syntax

section \<open>The data of encode.c\<close>

text \<open>
  \<^verbatim>\<open>#define MAX_CODEWORD_BITS 256\<close>, \<^verbatim>\<open>typedef uint8_t word_t\<close> and
  \<^verbatim>\<open>#define W (sizeof(word_t) * 8)\<close>.
\<close>

type_synonym word_t = "8 word"

definition MAX_CODEWORD_BITS :: nat where
  "MAX_CODEWORD_BITS = 256"

definition W :: nat where
  "W = 8"

text \<open>
  \<^verbatim>\<open>typedef struct { size_t len; word_t bits[MAX_CODEWORD_BITS / W]; } codeword_t\<close>.
  The array \<open>bits\<close> has \<open>MAX_CODEWORD_BITS / W = 32\<close> elements, with indices 0 to 31. It is
  a function from the index; every read goes through \<open>read_bits\<close>, which refuses an index
  outside the array, so the values of the function from 32 on are never looked at.

  The field \<open>len\<close> is a \<open>size_t\<close>, here a natural number. All the arithmetic of
  \<open>encode\<close> on it is exact (no \<open>size_t\<close> or \<open>int\<close> wraps around) as long as
  \<open>len \<le> MAX_CODEWORD_BITS\<close>, the bound the comment of the source gives, and every
  statement below about a table asks for that bound.
\<close>

record codeword_t =
  len :: nat
  bits :: "nat \<Rightarrow> word_t"

definition NUM_WORDS :: nat where
  "NUM_WORDS = MAX_CODEWORD_BITS div W"

text \<open>
  \<^verbatim>\<open>typedef codeword_t code_t[256]\<close>: a table with indices 0 to 255, read through
  \<open>lookup\<close> only.
\<close>

type_synonym code_t = "nat \<Rightarrow> codeword_t"

text \<open>
  Reading outside an array is undefined behaviour in C. The model stops there with
  \<open>OutOfBounds\<close>; the source has no other failure.
\<close>

datatype error = OutOfBounds

definition read_bits :: "codeword_t \<Rightarrow> nat \<Rightarrow> error + word_t" where
  "read_bits cw w = (if w < NUM_WORDS then Inr (bits cw w) else Inl OutOfBounds)"

text \<open>
  \<^verbatim>\<open>char sym = input[i]; codeword_t *cw = &code[sym];\<close>
  The index is the value of a plain \<open>char\<close>. Whether \<open>char\<close> is signed is left to the
  platform by C (signed with gcc and clang on x86, unsigned on ARM Linux), so it is the
  parameter \<open>char_signed\<close>: an input byte \<open>symb\<close> is the index \<open>sint symb\<close> where \<open>char\<close> is
  signed and \<open>uint symb\<close> where it is not.
\<close>

definition sym_index :: "bool \<Rightarrow> 8 word \<Rightarrow> int" where
  "sym_index char_signed symb = (if char_signed then sint symb else uint symb)"

definition lookup :: "bool \<Rightarrow> code_t \<Rightarrow> 8 word \<Rightarrow> error + codeword_t" where
  "lookup char_signed code symb =
     (let i = sym_index char_signed symb
      in if 0 \<le> i \<and> i < 256 then Inr (code (nat i)) else Inl OutOfBounds)"

section \<open>The body of encode\<close>

text \<open>
  The locals \<^verbatim>\<open>word_t buf = 0; int offset = 0;\<close>. The offset only ever holds 0 or a
  remainder modulo \<open>W\<close>, so it is a natural number.
\<close>

record accumulator =
  buf :: word_t
  offset :: nat

definition init_acc :: accumulator where
  "init_acc = \<lparr>buf = 0, offset = 0\<rparr>"

text \<open>
  \<^verbatim>\<open>putword\<close> writes one word to standard output; the output of the program is the list
  of the words written, in order.
\<close>

definition putword :: "word_t \<Rightarrow> word_t list" where
  "putword word = [word]"

text \<open>
  The operands of \<^verbatim>\<open><<\<close>, \<^verbatim>\<open>>>\<close> and \<^verbatim>\<open>|\<close> are promoted to \<open>int\<close> (32 bits) before
  the operation, and the result is cut back to 8 bits when it is stored in a \<open>word_t\<close> or
  passed to \<open>putword\<close>. The values stay below \<open>2 ^ 15\<close>, so the sign bit is never reached.

  \<open>or_shifted b c off\<close> is \<^verbatim>\<open>buf | (cw->bits[w] << offset)\<close> as a \<open>word_t\<close> (lines 44 and
  52), \<open>carry_shift off\<close> is the shift count \<^verbatim>\<open>W - offset\<close> of line 45 and \<open>carry c off\<close>
  is \<^verbatim>\<open>cw->bits[w] >> (W - offset)\<close> as stored in \<open>buf\<close>.
\<close>

definition or_shifted :: "word_t \<Rightarrow> word_t \<Rightarrow> nat \<Rightarrow> word_t" where
  "or_shifted b c off = ucast ((ucast b :: 32 word) OR push_bit off (ucast c :: 32 word))"

definition carry_shift :: "nat \<Rightarrow> nat" where
  "carry_shift off = W - off"

definition carry :: "word_t \<Rightarrow> nat \<Rightarrow> word_t" where
  "carry c off = ucast (drop_bit (carry_shift off) (ucast c :: 32 word))"

text \<open>
  The inner loop (lines 43 to 46), from the word index \<open>w\<close> on:
  \<^verbatim>\<open>for(int w = 0; w < num_words; w++) {
    putword(buf | (cw->bits[w] << offset));
    buf = cw->bits[w] >> (W - offset); }\<close>
  It returns the words written and the final \<open>buf\<close>.
\<close>

function copy_words ::
  "codeword_t \<Rightarrow> nat \<Rightarrow> nat \<Rightarrow> nat \<Rightarrow> word_t \<Rightarrow> error + (word_t list \<times> word_t)" where
  "copy_words cw off num_words w b =
     (if w < num_words then
        (case read_bits cw w of
           Inl e \<Rightarrow> Inl e
         | Inr c \<Rightarrow>
             (case copy_words cw off num_words (Suc w) (carry c off) of
                Inl e \<Rightarrow> Inl e
              | Inr (out, b') \<Rightarrow> Inr (putword (or_shifted b c off) @ out, b')))
      else Inr ([], b))"
  by pat_completeness auto
termination
  by (relation "measure (\<lambda>(cw, off, num_words, w, b). num_words - w)") auto

declare copy_words.simps [simp del]

text \<open>
  \<^verbatim>\<open>int num_words = (offset + cw->len) / W;\<close> (line 38).
\<close>

definition num_words :: "nat \<Rightarrow> nat \<Rightarrow> nat" where
  "num_words off n = (off + n) div W"

text \<open>
  One pass of the outer loop for the codeword \<open>cw\<close> (lines 38 to 55): the number of full
  words, the inner loop, the tail read \<^verbatim>\<open>buf |= (cw->bits[num_words] << offset)\<close> and the
  new offset \<^verbatim>\<open>offset = (offset + cw->len) % W\<close>. It returns the words written and the
  new values of the locals.
\<close>

definition merge :: "codeword_t \<Rightarrow> accumulator \<Rightarrow> error + (word_t list \<times> accumulator)" where
  "merge cw acc =
     (case copy_words cw (offset acc) (num_words (offset acc) (len cw)) 0 (buf acc) of
        Inl e \<Rightarrow> Inl e
      | Inr (out, b) \<Rightarrow>
          (case read_bits cw (num_words (offset acc) (len cw)) of
             Inl e \<Rightarrow> Inl e
           | Inr c \<Rightarrow>
               Inr (out, \<lparr>buf = or_shifted b c (offset acc),
                          offset = (offset acc + len cw) mod W\<rparr>)))"

text \<open>The whole body of the outer loop for one input byte (lines 31 to 55).\<close>

definition merge_sym ::
  "bool \<Rightarrow> code_t \<Rightarrow> 8 word \<Rightarrow> accumulator \<Rightarrow> error + (word_t list \<times> accumulator)" where
  "merge_sym sg code symb acc =
     (case lookup sg code symb of
        Inl e \<Rightarrow> Inl e
      | Inr cw \<Rightarrow> merge cw acc)"

text \<open>The outer loop over the input (lines 30 to 56), from any accumulator.\<close>

fun encode_loop ::
  "bool \<Rightarrow> code_t \<Rightarrow> 8 word list \<Rightarrow> accumulator \<Rightarrow> error + (word_t list \<times> accumulator)" where
  "encode_loop sg code [] acc = Inr ([], acc)"
| "encode_loop sg code (symb # rest) acc =
     (case merge_sym sg code symb acc of
        Inl e \<Rightarrow> Inl e
      | Inr (out, acc') \<Rightarrow>
          (case encode_loop sg code rest acc' of
             Inl e \<Rightarrow> Inl e
           | Inr (out', acc'') \<Rightarrow> Inr (out @ out', acc'')))"

text \<open>The end of \<open>encode\<close> (lines 58 to 61): \<^verbatim>\<open>if(offset > 0) { putword(buf); }\<close>.\<close>

definition flush :: "accumulator \<Rightarrow> word_t list" where
  "flush acc = (if 0 < offset acc then putword (buf acc) else [])"


text \<open>
  \<open>encode\<close>: the locals start at \<open>buf = 0\<close>, \<open>offset = 0\<close> on every call, the loop runs over
  the input and the last partial word is written. The input is the list of the \<open>len\<close>
  bytes of the buffer (the counter \<open>i\<close> is an \<open>int\<close>, which is enough for the buffers of at
  most 4096 bytes that \<open>main\<close> passes).
\<close>

definition encode :: "bool \<Rightarrow> code_t \<Rightarrow> 8 word list \<Rightarrow> error + word_t list" where
  "encode sg code input =
     (case encode_loop sg code input init_acc of
        Inl e \<Rightarrow> Inl e
      | Inr (out, acc) \<Rightarrow> Inr (out @ flush acc))"

section \<open>main\<close>

text \<open>
  The table \<open>main\<close> builds: all zero (\<open>memset\<close>), then the six codewords of
  \<open>'A'\<close> (65) to \<open>'F'\<close> (70).
\<close>

definition zero_cw :: codeword_t where
  "zero_cw = \<lparr>len = 0, bits = (\<lambda>_. 0)\<rparr>"

definition short_cw :: "nat \<Rightarrow> word_t \<Rightarrow> codeword_t" where
  "short_cw n b = \<lparr>len = n, bits = (\<lambda>_. 0)(0 := b)\<rparr>"

definition main_code :: code_t where
  "main_code = (\<lambda>_. zero_cw)
     (65 := short_cw 1 1, 66 := short_cw 2 2, 67 := short_cw 3 0,
      68 := short_cw 4 4, 69 := short_cw 5 12, 70 := short_cw 5 28)"

text \<open>
  \<^verbatim>\<open>while((len = read(0, buf, bufsize)) > 0) { encode(code, buf, len); }\<close>
  The input arrives as the list of the chunks that the successive calls of \<open>read\<close>
  return (each of at most \<open>bufsize = 4096\<close> bytes); each chunk goes through its own call
  of \<open>encode\<close>, and the loop ends at the first empty chunk (\<open>read\<close> returns 0 at the end
  of the input) or when no chunk is left.
\<close>

fun run_chunks :: "bool \<Rightarrow> code_t \<Rightarrow> 8 word list list \<Rightarrow> error + word_t list" where
  "run_chunks sg code [] = Inr []"
| "run_chunks sg code (chunk # chunks) =
     (if 0 < length chunk then
        (case encode sg code chunk of
           Inl e \<Rightarrow> Inl e
         | Inr out \<Rightarrow>
             (case run_chunks sg code chunks of
                Inl e \<Rightarrow> Inl e
              | Inr out' \<Rightarrow> Inr (out @ out')))
      else Inr [])"

definition main_loop :: "bool \<Rightarrow> 8 word list list \<Rightarrow> error + word_t list" where
  "main_loop sg chunks = run_chunks sg main_code chunks"

section \<open>Bit streams\<close>

text \<open>
  The bits of a word and of a list of words, least significant bit first, and the bits of
  a codeword: bit \<open>k\<close> of a codeword is bit \<open>k mod W\<close> of the word \<open>k div W\<close> of its
  content, and the codeword is its first \<open>len\<close> bits.
\<close>

definition word_bits :: "word_t \<Rightarrow> bool list" where
  "word_bits w = map (bit w) [0..<W]"

definition stream_bits :: "word_t list \<Rightarrow> bool list" where
  "stream_bits ws = concat (map word_bits ws)"

definition cw_bit :: "codeword_t \<Rightarrow> nat \<Rightarrow> bool" where
  "cw_bit cw k = bit (bits cw (k div W)) (k mod W)"

definition cw_bits :: "codeword_t \<Rightarrow> bool list" where
  "cw_bits cw = map (cw_bit cw) [0..<len cw]"

text \<open>
  What a statement may ask of a table: every length is at most \<open>MAX_CODEWORD_BITS\<close>
  (\<open>wf_table\<close>), and the content bits from \<open>len\<close> on are zero (\<open>masked_table\<close>), as in
  the table of \<open>main\<close>.
\<close>

definition dont_care_zero :: "codeword_t \<Rightarrow> bool" where
  "dont_care_zero cw = (\<forall>k\<in>{len cw..<MAX_CODEWORD_BITS}. \<not> cw_bit cw k)"

definition wf_table :: "code_t \<Rightarrow> bool" where
  "wf_table code = (\<forall>i\<in>{..<256}. len (code i) \<le> MAX_CODEWORD_BITS)"

definition masked_table :: "code_t \<Rightarrow> bool" where
  "masked_table code = (\<forall>i\<in>{..<256}. dont_care_zero (code i))"

text \<open>
  An input byte has an assigned codeword when its entry is in the table and has a length
  above 0; its codeword fits when the entry is in the table and has a length of at most
  \<open>MAX_CODEWORD_BITS - W = 248\<close>. \<open>sym_len\<close> and \<open>sym_bits\<close> are the length and the bits of
  the codeword of an input byte, \<open>total_len\<close> and \<open>code_bits\<close> those of a whole input.
\<close>

definition assigned :: "bool \<Rightarrow> code_t \<Rightarrow> 8 word \<Rightarrow> bool" where
  "assigned sg code symb = (case lookup sg code symb of Inl e \<Rightarrow> False | Inr cw \<Rightarrow> 0 < len cw)"

definition fits :: "bool \<Rightarrow> code_t \<Rightarrow> 8 word \<Rightarrow> bool" where
  "fits sg code symb =
     (case lookup sg code symb of Inl e \<Rightarrow> False | Inr cw \<Rightarrow> len cw + W \<le> MAX_CODEWORD_BITS)"

definition sym_len :: "bool \<Rightarrow> code_t \<Rightarrow> 8 word \<Rightarrow> nat" where
  "sym_len sg code symb = (case lookup sg code symb of Inl e \<Rightarrow> 0 | Inr cw \<Rightarrow> len cw)"

definition sym_bits :: "bool \<Rightarrow> code_t \<Rightarrow> 8 word \<Rightarrow> bool list" where
  "sym_bits sg code symb = (case lookup sg code symb of Inl e \<Rightarrow> [] | Inr cw \<Rightarrow> cw_bits cw)"

definition total_len :: "bool \<Rightarrow> code_t \<Rightarrow> 8 word list \<Rightarrow> nat" where
  "total_len sg code input = sum_list (map (sym_len sg code) input)"

definition code_bits :: "bool \<Rightarrow> code_t \<Rightarrow> 8 word list \<Rightarrow> bool list" where
  "code_bits sg code input = concat (map (sym_bits sg code) input)"

text \<open>
  The accumulator is clean when its offset is below \<open>W\<close> and the bits of its buffer from
  the offset on are zero.
\<close>

definition clean :: "accumulator \<Rightarrow> bool" where
  "clean acc = (offset acc < W \<and> (\<forall>k\<in>{offset acc..<W}. \<not> bit (buf acc) k))"

text \<open>
  Two codewords agree up to \<open>n\<close> bits past their length when they have the same length
  and the same content bits below \<open>len + n\<close>; two tables agree when all their entries do.
  With \<open>n = 0\<close> the bits from \<open>len\<close> on are free.
\<close>

definition agree_cw :: "nat \<Rightarrow> codeword_t \<Rightarrow> codeword_t \<Rightarrow> bool" where
  "agree_cw n cw cw' = (len cw = len cw' \<and> (\<forall>k\<in>{..<len cw + n}. cw_bit cw k = cw_bit cw' k))"

definition agree_table :: "nat \<Rightarrow> code_t \<Rightarrow> code_t \<Rightarrow> bool" where
  "agree_table n code code' = (\<forall>i\<in>{..<256}. agree_cw n (code i) (code' i))"

text \<open>
  Tables for the examples: the table of \<open>main\<close> with a second bit set in the first
  content word of \<open>'A'\<close>, past its length 1, and with a codeword of the greatest length
  for \<open>'A'\<close>.
\<close>

definition unmasked_code :: code_t where
  "unmasked_code = main_code(65 := short_cw 1 3)"

text \<open>
  The table of \<open>main\<close> with one more bit set for \<open>'A'\<close>, in the second content word:
  bit 9 of the content, \<open>W\<close> bits past the length 1.
\<close>

definition far_code :: code_t where
  "far_code = main_code(65 := \<lparr>len = 1, bits = (\<lambda>_. 0)(0 := 1, 1 := 2)\<rparr>)"

definition long_cw :: codeword_t where
  "long_cw = \<lparr>len = MAX_CODEWORD_BITS, bits = (\<lambda>_. 0)\<rparr>"

definition long_code :: code_t where
  "long_code = main_code(65 := long_cw)"

text \<open>The table of \<open>main\<close> with a codeword of length 1 for the byte \<open>0x80\<close> (128).\<close>

definition high_code :: code_t where
  "high_code = main_code(128 := short_cw 1 1)"

section \<open>The word operations\<close>

text \<open>
  On 8 bits, the promoted operations are the plain ones: the bits that the left shift
  moves past bit 7 are cut off when the result is stored, and the right shift by
  \<open>W - offset\<close> (up to \<open>W\<close> itself) is a shift of a 32-bit value.
\<close>

lemma bit_or_shifted:
  "bit (or_shifted b c off) k \<longleftrightarrow> k < 8 \<and> (bit b k \<or> (off \<le> k \<and> bit c (k - off)))"
  by (auto simp: or_shifted_def bit_simps dest: bit_imp_le_length)

lemma or_shifted_eq: "or_shifted b c off = b OR push_bit off c"
  by (rule bit_word_eqI) (auto simp: bit_or_shifted bit_simps)

lemma bit_carry:
  "off \<le> 8 \<Longrightarrow> bit (carry c off) k \<longleftrightarrow> bit c (k + (8 - off))"
  by (auto simp: carry_def carry_shift_def W_def bit_simps add.commute dest: bit_imp_le_length)

lemma carry_eq: "off \<le> 8 \<Longrightarrow> carry c off = drop_bit (8 - off) c"
  by (rule bit_word_eqI) (auto simp: bit_carry bit_simps add.commute)

lemma carry_0: "carry c 0 = 0"
  by (rule bit_word_eqI) (auto simp: bit_carry bit_simps dest: bit_imp_le_length)

lemma carry_clean: "off \<le> 8 \<Longrightarrow> off \<le> k \<Longrightarrow> \<not> bit (carry c off) k"
  by (auto simp: bit_carry dest: bit_imp_le_length)

section \<open>Bit lists\<close>

lemma length_word_bits [simp]: "length (word_bits w) = 8"
  by (simp add: word_bits_def W_def)

lemma nth_word_bits [simp]: "k < 8 \<Longrightarrow> word_bits w ! k = bit w k"
  by (simp add: word_bits_def W_def)

lemma stream_bits_Nil [simp]: "stream_bits [] = []"
  by (simp add: stream_bits_def)

lemma stream_bits_Cons [simp]: "stream_bits (x # xs) = word_bits x @ stream_bits xs"
  by (simp add: stream_bits_def)

lemma stream_bits_append [simp]: "stream_bits (xs @ ys) = stream_bits xs @ stream_bits ys"
  by (simp add: stream_bits_def)

lemma length_stream_bits [simp]: "length (stream_bits ws) = 8 * length ws"
  by (induction ws) simp_all

lemma word_bits_cw: "word_bits (bits cw w) = map (cw_bit cw) [8 * w..<8 * w + 8]"
  by (rule nth_equalityI) (simp_all add: cw_bit_def W_def)

text \<open>
  One round of the inner loop, on bits: the word written and the carry hold the pending
  bits followed by the bits of the content word.
\<close>

lemma step_bits:
  assumes "off \<le> 8" and "\<forall>k\<in>{off..<8}. \<not> bit b k"
  shows "word_bits (or_shifted b c off) @ take off (word_bits (carry c off))
         = take off (word_bits b) @ word_bits c"
  using assms
  by (intro nth_equalityI) (auto simp: nth_append bit_or_shifted bit_carry)

lemma or_shifted_bits:
  assumes "off \<le> 8" and "\<forall>k\<in>{off..<8}. \<not> bit b k"
  shows "word_bits (or_shifted b c off) = take off (word_bits b) @ take (8 - off) (word_bits c)"
  using assms
  by (intro nth_equalityI) (auto simp: nth_append bit_or_shifted)

lemma clean_word_bits:
  assumes "clean acc"
  shows "word_bits (buf acc)
           = take (offset acc) (word_bits (buf acc)) @ replicate (W - offset acc) False"
  using assms
  by (intro nth_equalityI) (auto simp: clean_def W_def nth_append)

lemma clean_init: "clean init_acc"
  by (simp add: clean_def init_acc_def W_def)

section \<open>The inner loop\<close>

lemma copy_words_length:
  "copy_words cw off n w b = Inr (out, b') \<Longrightarrow> length out = n - w"
proof (induction cw off n w b arbitrary: out b' rule: copy_words.induct)
  case (1 cw off n w b)
  show ?case
  proof (cases "w < n")
    case True
    with "1.prems" obtain c out1 where
      c: "read_bits cw w = Inr c" and
      rec: "copy_words cw off n (Suc w) (carry c off) = Inr (out1, b')" and
      out: "out = putword (or_shifted b c off) @ out1"
      by (subst (asm) copy_words.simps) (auto split: sum.splits)
    from "1.IH" [OF True c rec] have "length out1 = n - Suc w" .
    with True out show ?thesis by (simp add: putword_def)
  next
    case False
    with "1.prems" show ?thesis
      by (subst (asm) copy_words.simps) simp
  qed
qed

lemma copy_words_bits:
  "copy_words cw off n w b = Inr (out, b') \<Longrightarrow> off < 8 \<Longrightarrow>
   \<forall>k\<in>{off..<8}. \<not> bit b k \<Longrightarrow> w \<le> n \<Longrightarrow>
   stream_bits out @ take off (word_bits b')
     = take off (word_bits b) @ map (cw_bit cw) [8 * w..<8 * n]
   \<and> (\<forall>k\<in>{off..<8}. \<not> bit b' k)"
proof (induction cw off n w b arbitrary: out b' rule: copy_words.induct)
  case (1 cw off n w b)
  show ?case
  proof (cases "w < n")
    case True
    with "1.prems" obtain c out1 where
      c: "read_bits cw w = Inr c" and
      rec: "copy_words cw off n (Suc w) (carry c off) = Inr (out1, b')" and
      out: "out = putword (or_shifted b c off) @ out1"
      by (subst (asm) copy_words.simps) (auto split: sum.splits)
    from c have cw: "c = bits cw w"
      by (simp add: read_bits_def split: if_splits)
    have cl: "\<forall>k\<in>{off..<8}. \<not> bit (carry c off) k"
      using \<open>off < 8\<close> by (simp add: carry_clean)
    from "1.IH" [OF True c rec \<open>off < 8\<close> cl] True
    have ih: "stream_bits out1 @ take off (word_bits b')
                = take off (word_bits (carry c off)) @ map (cw_bit cw) [8 * Suc w..<8 * n]"
      and cl': "\<forall>k\<in>{off..<8}. \<not> bit b' k"
      by simp_all
    have step: "word_bits (or_shifted b c off) @ take off (word_bits (carry c off))
                  = take off (word_bits b) @ word_bits c"
      using "1.prems" by (intro step_bits) simp_all
    have split: "[8 * w..<8 * n] = [8 * w..<8 * w + 8] @ [8 * Suc w..<8 * n]"
      using True upt_add_eq_append [of "8 * w" "8 * w + 8" "8 * n - (8 * w + 8)"]
      by (simp add: add.commute)
    have "stream_bits out @ take off (word_bits b')
            = word_bits (or_shifted b c off) @ stream_bits out1 @ take off (word_bits b')"
      by (simp add: out putword_def)
    also have "\<dots> = (word_bits (or_shifted b c off) @ take off (word_bits (carry c off)))
                     @ map (cw_bit cw) [8 * Suc w..<8 * n]"
      by (simp add: ih)
    also have "\<dots> = (take off (word_bits b) @ word_bits c)
                     @ map (cw_bit cw) [8 * Suc w..<8 * n]"
      by (simp only: step)
    also have "\<dots> = take off (word_bits b) @ map (cw_bit cw) [8 * w..<8 * n]"
      by (simp add: split cw word_bits_cw)
    finally show ?thesis using cl' by simp
  next
    case False
    with "1.prems" show ?thesis
      by (subst (asm) copy_words.simps) simp
  qed
qed

lemma copy_words_returns:
  "n \<le> NUM_WORDS \<Longrightarrow> \<exists>out b'. copy_words cw off n w b = Inr (out, b')"
proof (induction cw off n w b rule: copy_words.induct)
  case (1 cw off n w b)
  show ?case
  proof (cases "w < n")
    case True
    with "1.prems" have c: "read_bits cw w = Inr (bits cw w)"
      by (simp add: read_bits_def)
    from "1.IH" [OF True c "1.prems"] obtain out1 b1 where
      "copy_words cw off n (Suc w) (carry (bits cw w) off) = Inr (out1, b1)" by blast
    with True c show ?thesis
      by (subst copy_words.simps) simp
  next
    case False
    then show ?thesis by (subst copy_words.simps) simp
  qed
qed

text \<open>The inner loop looks at the content words below \<open>num_words\<close> only.\<close>

lemma copy_words_cong:
  "\<forall>i\<in>{w..<n}. bits cw i = bits cw' i \<Longrightarrow>
   copy_words cw off n w b = copy_words cw' off n w b"
proof (induction cw off n w b rule: copy_words.induct)
  case (1 cw off n w b)
  show ?case
  proof (cases "w < n")
    case True
    with "1.prems" have eq: "bits cw w = bits cw' w" by simp
    then have rb: "read_bits cw w = read_bits cw' w" by (simp add: read_bits_def)
    show ?thesis
    proof (cases "read_bits cw w")
      case (Inl e)
      with rb have "read_bits cw' w = Inl e" by simp
      with Inl True show ?thesis
        by (subst copy_words.simps, subst (2) copy_words.simps) simp
    next
      case (Inr c)
      from "1.IH" [OF True Inr] "1.prems"
      have "copy_words cw off n (Suc w) (carry c off) = copy_words cw' off n (Suc w) (carry c off)"
        by simp
      moreover from rb Inr have "read_bits cw' w = Inr c" by simp
      ultimately show ?thesis using Inr True
        by (subst copy_words.simps, subst (2) copy_words.simps) simp
    qed
  next
    case False
    then show ?thesis
      by (subst copy_words.simps, subst (2) copy_words.simps) simp
  qed
qed

section \<open>One codeword\<close>

lemma merge_InrD:
  assumes "merge cw acc = Inr (out, acc')"
  obtains b where
    "copy_words cw (offset acc) ((offset acc + len cw) div 8) 0 (buf acc) = Inr (out, b)"
    "(offset acc + len cw) div 8 < NUM_WORDS"
    "acc' = \<lparr>buf = or_shifted b (bits cw ((offset acc + len cw) div 8)) (offset acc),
             offset = (offset acc + len cw) mod 8\<rparr>"
  using assms
  by (auto simp: merge_def num_words_def read_bits_def W_def split: sum.splits if_splits)

text \<open>
  The tail read is inside the content array exactly when \<open>offset + len\<close> is below
  \<open>MAX_CODEWORD_BITS\<close>, and then the pass returns.
\<close>

lemma tail_read_in_range:
  "num_words off n < NUM_WORDS \<longleftrightarrow> off + n < MAX_CODEWORD_BITS"
  by (auto simp: num_words_def NUM_WORDS_def MAX_CODEWORD_BITS_def W_def)

lemma merge_returns:
  assumes "offset acc + len cw < MAX_CODEWORD_BITS"
  shows "\<exists>out acc'. merge cw acc = Inr (out, acc')"
proof -
  from assms have nw: "num_words (offset acc) (len cw) < NUM_WORDS"
    by (simp add: tail_read_in_range)
  then obtain out b where
    "copy_words cw (offset acc) (num_words (offset acc) (len cw)) 0 (buf acc) = Inr (out, b)"
    using copy_words_returns [of "num_words (offset acc) (len cw)" cw "offset acc" 0 "buf acc"]
    by auto
  with nw show ?thesis
    by (simp add: merge_def read_bits_def)
qed

lemma merge_length:
  assumes "merge cw acc = Inr (out, acc')"
  shows "8 * length out + offset acc' = offset acc + len cw"
proof -
  from assms obtain b where
    cp: "copy_words cw (offset acc) ((offset acc + len cw) div 8) 0 (buf acc) = Inr (out, b)"
    and acc': "offset acc' = (offset acc + len cw) mod 8"
    by (auto elim!: merge_InrD)
  from copy_words_length [OF cp] have "length out = (offset acc + len cw) div 8" by simp
  with acc' show ?thesis by simp
qed

lemma merge_offset: "merge cw acc = Inr (out, acc') \<Longrightarrow> offset acc' < 8"
  by (auto elim!: merge_InrD)

lemma merge_bits:
  assumes m: "merge cw acc = Inr (out, acc')"
    and cl: "clean acc"
    and wf: "len cw \<le> MAX_CODEWORD_BITS"
    and dc: "dont_care_zero cw"
  shows "stream_bits out @ take (offset acc') (word_bits (buf acc'))
           = take (offset acc) (word_bits (buf acc)) @ cw_bits cw"
    and "clean acc'"
proof -
  define off where "off = offset acc"
  define nw where "nw = (off + len cw) div 8"
  define off' where "off' = (off + len cw) mod 8"
  from m obtain b where
    cp: "copy_words cw off nw 0 (buf acc) = Inr (out, b)"
    and nw: "nw < NUM_WORDS"
    and buf': "buf acc' = or_shifted b (bits cw nw) off"
    and offset': "offset acc' = off'"
    by (auto elim!: merge_InrD simp: off_def nw_def off'_def)
  from cl have off: "off < 8" and clb: "\<forall>k\<in>{off..<8}. \<not> bit (buf acc) k"
    by (simp_all add: clean_def off_def W_def)
  have sum: "8 * nw + off' = off + len cw"
    by (simp add: nw_def off'_def)
  have off': "off' < 8" by (simp add: off'_def)
  have lout: "length out = nw"
    using copy_words_length [OF cp] by simp
  from copy_words_bits [OF cp off clb]
  have loop: "stream_bits out @ take off (word_bits b)
                = take off (word_bits (buf acc)) @ map (cw_bit cw) [0..<8 * nw]"
    and clb': "\<forall>k\<in>{off..<8}. \<not> bit b k"
    by simp_all
  have tail: "word_bits (buf acc')
                = take off (word_bits b) @ map (cw_bit cw) [8 * nw..<8 * nw + 8 - off]"
    using off clb' by (simp add: buf' or_shifted_bits word_bits_cw take_map)
  have "stream_bits out @ word_bits (buf acc')
          = (stream_bits out @ take off (word_bits b))
            @ map (cw_bit cw) [8 * nw..<8 * nw + 8 - off]"
    by (simp add: tail)
  also have "\<dots> = take off (word_bits (buf acc))
                   @ map (cw_bit cw) ([0..<8 * nw] @ [8 * nw..<8 * nw + 8 - off])"
    by (simp only: loop map_append append_assoc)
  also have "[0..<8 * nw] @ [8 * nw..<8 * nw + 8 - off] = [0..<8 * nw + 8 - off]"
    using off upt_add_eq_append [of 0 "8 * nw" "8 - off"] by simp
  finally have full: "stream_bits out @ word_bits (buf acc')
          = take off (word_bits (buf acc)) @ map (cw_bit cw) [0..<8 * nw + 8 - off]" .
  have "take (8 * nw + off') (stream_bits out @ word_bits (buf acc'))
          = stream_bits out @ take off' (word_bits (buf acc'))"
    by (simp add: lout)
  moreover have "take (8 * nw + off')
                   (take off (word_bits (buf acc)) @ map (cw_bit cw) [0..<8 * nw + 8 - off])
          = take off (word_bits (buf acc)) @ map (cw_bit cw) [0..<len cw]"
    using off off' sum by (simp add: take_map min_def)
  ultimately show "stream_bits out @ take (offset acc') (word_bits (buf acc'))
           = take (offset acc) (word_bits (buf acc)) @ cw_bits cw"
    using full by (simp add: offset' off_def cw_bits_def)
  have "\<not> bit (buf acc') k" if k: "off' \<le> k" "k < 8" for k
  proof -
    have "bit (buf acc') k = (stream_bits out @ word_bits (buf acc')) ! (8 * nw + k)"
      using k by (simp add: nth_append lout)
    also have "\<dots> = map (cw_bit cw) [0..<8 * nw + 8 - off] ! (8 * nw + k - off)"
      using k off sum by (simp add: full nth_append)
    also have "\<dots> = cw_bit cw (8 * nw + k - off)"
      using k off sum by simp
    finally have "bit (buf acc') k = cw_bit cw (8 * nw + k - off)" .
    moreover have "len cw \<le> 8 * nw + k - off" using k sum by simp
    moreover have "8 * nw + k - off < MAX_CODEWORD_BITS"
      using nw k by (simp add: NUM_WORDS_def MAX_CODEWORD_BITS_def W_def)
    ultimately show ?thesis using dc by (simp add: dont_care_zero_def)
  qed
  with off' show "clean acc'"
    by (simp add: clean_def offset' W_def)
qed

section \<open>The outer loop\<close>

lemma lookup_in_table:
  "lookup sg code symb = Inr cw \<Longrightarrow> \<exists>i<256. cw = code i"
  by (auto simp: lookup_def Let_def split: if_splits intro!: exI [of _ "nat (sym_index sg symb)"])

lemma lookup_wf:
  "wf_table code \<Longrightarrow> lookup sg code symb = Inr cw \<Longrightarrow> len cw \<le> MAX_CODEWORD_BITS"
  by (auto simp: wf_table_def dest!: lookup_in_table)

lemma lookup_masked:
  "masked_table code \<Longrightarrow> lookup sg code symb = Inr cw \<Longrightarrow> dont_care_zero cw"
  by (auto simp: masked_table_def dest!: lookup_in_table)

lemma encode_loop_ConsD:
  assumes "encode_loop sg code (symb # rest) acc = Inr (out, acc'')"
  obtains cw out1 acc' out2 where
    "lookup sg code symb = Inr cw" "merge cw acc = Inr (out1, acc')"
    "encode_loop sg code rest acc' = Inr (out2, acc'')" "out = out1 @ out2"
  using assms by (auto simp: merge_sym_def split: sum.splits)

lemma encode_loop_length:
  "encode_loop sg code input acc = Inr (out, acc') \<Longrightarrow>
   8 * length out + offset acc' = offset acc + total_len sg code input"
proof (induction input arbitrary: acc out)
  case Nil
  then show ?case by (simp add: total_len_def)
next
  case (Cons symb rest)
  from Cons.prems obtain cw out1 acc1 out2 where
    lk: "lookup sg code symb = Inr cw" and m: "merge cw acc = Inr (out1, acc1)" and
    rec: "encode_loop sg code rest acc1 = Inr (out2, acc')" and out: "out = out1 @ out2"
    by (rule encode_loop_ConsD)
  from merge_length [OF m] Cons.IH [OF rec] lk out show ?case
    by (simp add: total_len_def sym_len_def)
qed


lemma encode_loop_bits:
  "encode_loop sg code input acc = Inr (out, acc') \<Longrightarrow> clean acc \<Longrightarrow>
   wf_table code \<Longrightarrow> masked_table code \<Longrightarrow>
   stream_bits out @ take (offset acc') (word_bits (buf acc'))
     = take (offset acc) (word_bits (buf acc)) @ code_bits sg code input
   \<and> clean acc'"
proof (induction input arbitrary: acc out)
  case Nil
  then show ?case by (simp add: code_bits_def)
next
  case (Cons symb rest)
  from Cons.prems(1) obtain cw out1 acc1 out2 where
    lk: "lookup sg code symb = Inr cw" and m: "merge cw acc = Inr (out1, acc1)" and
    rec: "encode_loop sg code rest acc1 = Inr (out2, acc')" and out: "out = out1 @ out2"
    by (rule encode_loop_ConsD)
  have wf: "len cw \<le> MAX_CODEWORD_BITS" and dc: "dont_care_zero cw"
    using Cons.prems lk by (auto dest: lookup_wf lookup_masked)
  note mb = merge_bits [OF m \<open>clean acc\<close> wf dc]
  from Cons.IH [OF rec mb(2) Cons.prems(3,4)]
  have ih: "stream_bits out2 @ take (offset acc') (word_bits (buf acc'))
              = take (offset acc1) (word_bits (buf acc1)) @ code_bits sg code rest"
    and cl: "clean acc'" by simp_all
  have "stream_bits out @ take (offset acc') (word_bits (buf acc'))
          = stream_bits out1 @ (stream_bits out2 @ take (offset acc') (word_bits (buf acc')))"
    by (simp add: out)
  also have "\<dots> = (stream_bits out1 @ take (offset acc1) (word_bits (buf acc1)))
                    @ code_bits sg code rest"
    by (simp only: ih append_assoc)
  also have "\<dots> = take (offset acc) (word_bits (buf acc)) @ code_bits sg code (symb # rest)"
    by (simp add: mb(1) code_bits_def sym_bits_def lk)
  finally show ?case using cl by simp
qed

text \<open>
  A call whose codewords all fit (lengths up to 248) never reads outside a content
  array, and returns.
\<close>

lemma encode_loop_returns:
  "\<forall>symb\<in>set input. fits sg code symb \<Longrightarrow> offset acc < W \<Longrightarrow>
   \<exists>out acc'. encode_loop sg code input acc = Inr (out, acc')"
proof (induction input arbitrary: acc)
  case Nil
  then show ?case by simp
next
  case (Cons symb rest)
  from Cons.prems obtain cw where
    lk: "lookup sg code symb = Inr cw" and le: "len cw + W \<le> MAX_CODEWORD_BITS"
    by (auto simp: fits_def split: sum.splits)
  with Cons.prems have "offset acc + len cw < MAX_CODEWORD_BITS" by simp
  from merge_returns [OF this] obtain out1 acc1 where
    m: "merge cw acc = Inr (out1, acc1)" by blast
  from merge_offset [OF m] have "offset acc1 < W" by (simp add: W_def)
  with Cons.IH [of acc1] Cons.prems(1) obtain out2 acc2 where
    "encode_loop sg code rest acc1 = Inr (out2, acc2)" by auto
  with lk m show ?case by (simp add: merge_sym_def)
qed

lemma encode_returns:
  assumes "\<forall>symb\<in>set input. fits sg code symb"
  shows "\<exists>out. encode sg code input = Inr out"
proof -
  from encode_loop_returns [OF assms, of init_acc] obtain out acc where
    "encode_loop sg code input init_acc = Inr (out, acc)"
    by (auto simp: init_acc_def W_def)
  then show ?thesis by (simp add: encode_def)
qed

lemma encode_InrD:
  assumes "encode sg code input = Inr out"
  obtains out1 acc where
    "encode_loop sg code input init_acc = Inr (out1, acc)" "out = out1 @ flush acc"
  using assms by (auto simp: encode_def split: sum.splits)

section \<open>Tables that agree\<close>

lemma cw_bit_word: "j < 8 \<Longrightarrow> cw_bit cw (8 * i + j) = bit (bits cw i) j"
  by (simp add: cw_bit_def W_def)

lemma agree_cw_refl: "agree_cw n cw cw"
  by (simp add: agree_cw_def)

lemma agree_words:
  assumes "agree_cw n cw cw'" and "8 * i + 8 \<le> len cw + n"
  shows "bits cw i = bits cw' i"
proof (rule bit_word_eqI)
  fix j assume "j < LENGTH(8)"
  then have j: "j < 8" by simp
  with assms have "cw_bit cw (8 * i + j) = cw_bit cw' (8 * i + j)"
    by (simp add: agree_cw_def)
  with j show "bit (bits cw i) j = bit (bits cw' i) j"
    by (simp add: cw_bit_word)
qed

lemma or_shifted_cong:
  assumes "\<forall>j<8 - off. bit c j = bit c' j"
  shows "or_shifted b c off = or_shifted b c' off"
  using assms by (intro bit_word_eqI) (auto simp: bit_or_shifted)

text \<open>
  A pass looks at the content bits below \<open>len + W\<close> only: the words of the inner loop
  end before \<open>offset + len\<close>, and of the tail word the left shift keeps the lowest
  \<open>W - offset\<close> bits.
\<close>

lemma merge_agree:
  assumes ag: "agree_cw W cw cw'" and off: "offset acc < W"
  shows "merge cw acc = merge cw' acc"
proof -
  define nw where "nw = num_words (offset acc) (len cw)"
  from ag have len: "len cw' = len cw" by (simp add: agree_cw_def)
  have nw8: "8 * nw \<le> offset acc + len cw"
    by (simp add: nw_def num_words_def W_def)
  have "\<forall>i\<in>{0..<nw}. bits cw i = bits cw' i"
  proof
    fix i assume "i \<in> {0..<nw}"
    with nw8 off have "8 * i + 8 \<le> len cw + W" by (simp add: W_def)
    with ag show "bits cw i = bits cw' i" by (rule agree_words)
  qed
  then have loop: "copy_words cw (offset acc) nw 0 b = copy_words cw' (offset acc) nw 0 b" for b
    by (rule copy_words_cong)
  have tail: "or_shifted b (bits cw nw) (offset acc) = or_shifted b (bits cw' nw) (offset acc)"
    for b
  proof (rule or_shifted_cong, intro allI impI)
    fix j assume "j < 8 - offset acc"
    with nw8 have "8 * nw + j < len cw + W" and "j < 8" by (simp_all add: W_def)
    with ag have "cw_bit cw (8 * nw + j) = cw_bit cw' (8 * nw + j)"
      by (simp add: agree_cw_def)
    with \<open>j < 8\<close> show "bit (bits cw nw) j = bit (bits cw' nw) j"
      by (simp add: cw_bit_word)
  qed
  have rb: "read_bits cw' nw = (if nw < NUM_WORDS then Inr (bits cw' nw) else Inl OutOfBounds)"
    "read_bits cw nw = (if nw < NUM_WORDS then Inr (bits cw nw) else Inl OutOfBounds)"
    by (simp_all add: read_bits_def)
  show ?thesis
    unfolding merge_def len nw_def [symmetric] loop rb
    by (auto split: sum.splits simp: tail)
qed

lemma lookup_agree:
  "(\<exists>e. lookup sg code symb = Inl e \<and> lookup sg code' symb = Inl e)
   \<or> (\<exists>i<256. lookup sg code symb = Inr (code i) \<and> lookup sg code' symb = Inr (code' i))"
  by (auto simp: lookup_def Let_def intro!: exI [of _ "nat (sym_index sg symb)"])

lemma merge_sym_agree:
  assumes "agree_table W code code'" and "offset acc < W"
  shows "merge_sym sg code symb acc = merge_sym sg code' symb acc"
  using lookup_agree [of sg code symb code'] assms
  by (auto simp: merge_sym_def agree_table_def intro!: merge_agree)

lemma merge_sym_offset: "merge_sym sg code symb acc = Inr (out, acc') \<Longrightarrow> offset acc' < W"
  by (auto simp: merge_sym_def W_def split: sum.splits dest: merge_offset)

lemma encode_loop_agree:
  "agree_table W code code' \<Longrightarrow> offset acc < W \<Longrightarrow>
   encode_loop sg code input acc = encode_loop sg code' input acc"
proof (induction input arbitrary: acc)
  case Nil
  then show ?case by simp
next
  case (Cons symb rest)
  note eq = merge_sym_agree [OF Cons.prems, of sg symb]
  show ?case
  proof (cases "merge_sym sg code symb acc")
    case (Inl e)
    moreover from Inl eq have "merge_sym sg code' symb acc = Inl e" by simp
    ultimately show ?thesis by simp
  next
    case (Inr r)
    obtain out acc' where r: "r = (out, acc')" by (cases r)
    with Inr have m: "merge_sym sg code symb acc = Inr (out, acc')" by simp
    with eq have m': "merge_sym sg code' symb acc = Inr (out, acc')" by simp
    from m have "offset acc' < W" by (rule merge_sym_offset)
    from Cons.IH [OF Cons.prems(1) this] m m' show ?thesis by simp
  qed
qed

text \<open>Where \<open>char\<close> is unsigned, every byte selects its own entry of the table.\<close>

lemma lookup_unsigned: "lookup False code symb = Inr (code (unat symb))"
proof -
  have "uint symb < 256" using uint_bounded [of symb] by simp
  then show ?thesis by (simp add: lookup_def sym_index_def)
qed

section \<open>Evaluation on concrete inputs\<close>

lemmas model_defs =
  encode_def merge_sym_def merge_def num_words_def copy_words.simps
  read_bits_def lookup_def sym_index_def or_shifted_def carry_def carry_shift_def
  flush_def putword_def init_acc_def W_def MAX_CODEWORD_BITS_def NUM_WORDS_def

lemmas table_defs =
  main_code_def short_cw_def zero_cw_def unmasked_code_def long_code_def long_cw_def
  far_code_def high_code_def

lemma dont_care_zero_cw: "dont_care_zero zero_cw"
  by (simp add: dont_care_zero_def cw_bit_def zero_cw_def)

lemma cw_bit_short: "cw_bit (short_cw n b) k \<longleftrightarrow> k < 8 \<and> bit b k"
  by (auto simp: cw_bit_def short_cw_def W_def dest: bit_imp_le_length)

lemma len_short_cw: "len (short_cw n b) = n"
  by (simp add: short_cw_def)

lemma dont_care_short:
  "\<forall>k\<in>{n..<8}. \<not> bit b k \<Longrightarrow> dont_care_zero (short_cw n b)"
  by (auto simp: dont_care_zero_def cw_bit_short len_short_cw)

lemma wf_main_code: "wf_table main_code"
  by (simp add: wf_table_def table_defs MAX_CODEWORD_BITS_def)

lemma masked_main_code: "masked_table main_code"
  by (auto simp: masked_table_def main_code_def atLeastLessThan_nat_numeral
      intro!: dont_care_short dont_care_zero_cw)

lemma wf_unmasked_code: "wf_table unmasked_code"
  by (simp add: wf_table_def table_defs MAX_CODEWORD_BITS_def)


lemma assigned_A: "assigned True main_code 65"
  by (simp add: assigned_def lookup_def sym_index_def table_defs)

lemma assigned_B: "assigned True main_code 66"
  by (simp add: assigned_def lookup_def sym_index_def table_defs)

lemma fits_A: "fits True main_code 65"
  by (simp add: fits_def lookup_def sym_index_def table_defs W_def MAX_CODEWORD_BITS_def)

lemma fits_B: "fits True main_code 66"
  by (simp add: fits_def lookup_def sym_index_def table_defs W_def MAX_CODEWORD_BITS_def)

lemma encode_loop_AB:
  "encode_loop True main_code [65, 66] init_acc = Inr ([], \<lparr>buf = 5, offset = 3\<rparr>)"
  by (simp add: model_defs table_defs)

lemma encode_AB: "encode True main_code [65, 66] = Inr [5]"
  by (simp add: model_defs table_defs)








lemma upt_0_8: "[0..<8] = [0, 1, 2, 3, 4, 5, 6, 7]"
  by (simp add: upt_conv_Cons)

lemma word_bits_3: "word_bits 3 = [True, True, False, False, False, False, False, False]"
  by (simp add: word_bits_def W_def upt_0_8)

lemma replicate_7: "replicate 7 x = [x, x, x, x, x, x, x]"
  by (simp add: numeral_eq_Suc)

section \<open>The bits written\<close>

text \<open>
  Claim C1, amended. Take a table whose lengths are at most \<open>MAX_CODEWORD_BITS\<close> and
  whose content bits from \<open>len\<close> on are zero, and an input whose symbols all have an
  assigned codeword (length above 0). Whenever a call of \<open>encode\<close> returns its output,
  the bits of the words written, least significant bit first and in the order of the
  words, are the bits of the codewords of the symbols one after the other, followed by
  zero bits up to the next multiple of \<open>W\<close>. And the call does return its output when
  every codeword fits (no length above 248), since it then stays inside the content
  arrays.
\<close>

theorem encode_bits:
  assumes "wf_table code" and "masked_table code"
    and "\<forall>symb\<in>set input. assigned sg code symb"
  shows "(\<forall>out. encode sg code input = Inr out \<longrightarrow>
            stream_bits out
              = code_bits sg code input
                @ replicate ((W - total_len sg code input mod W) mod W) False)
       \<and> ((\<forall>symb\<in>set input. fits sg code symb) \<longrightarrow>
            (\<exists>out. encode sg code input = Inr out))"
proof (intro conjI allI impI)
  fix out assume enc: "encode sg code input = Inr out"
  then obtain out1 acc where
    loop: "encode_loop sg code input init_acc = Inr (out1, acc)" and out: "out = out1 @ flush acc"
    by (rule encode_InrD)
  from encode_loop_bits [OF loop clean_init assms(1,2)]
  have bits: "stream_bits out1 @ take (offset acc) (word_bits (buf acc)) = code_bits sg code input"
    and cl: "clean acc"
    by (simp_all add: init_acc_def)
  from encode_loop_length [OF loop]
  have "8 * length out1 + offset acc = total_len sg code input"
    by (simp add: init_acc_def)
  moreover from cl have "offset acc < 8" by (simp add: clean_def W_def)
  ultimately have off: "offset acc = total_len sg code input mod W"
    by (simp add: W_def) presburger
  show "stream_bits out
          = code_bits sg code input
            @ replicate ((W - total_len sg code input mod W) mod W) False"
  proof (cases "offset acc = 0")
    case True
    with bits out off show ?thesis by (simp add: flush_def W_def)
  next
    case False
    with cl have "(W - offset acc) mod W = W - offset acc"
      by (simp add: clean_def)
    moreover have "stream_bits out = stream_bits out1 @ word_bits (buf acc)"
      using False by (simp add: out flush_def putword_def)
    ultimately show ?thesis
      using clean_word_bits [OF cl] bits off by (metis append_assoc)
  qed
next
  assume "\<forall>symb\<in>set input. fits sg code symb"
  then show "\<exists>out. encode sg code input = Inr out" by (rule encode_returns)
qed

text \<open>The input \<open>"AB"\<close> with the table of \<open>main\<close>: the word \<open>0x05\<close>.\<close>

theorem encode_bits_witness:
  "wf_table main_code \<and> masked_table main_code
   \<and> assigned True main_code 65 \<and> assigned True main_code 66
   \<and> fits True main_code 65 \<and> fits True main_code 66
   \<and> encode True main_code [65, 66] = Inr [5]
   \<and> stream_bits [5]
       = code_bits True main_code [65, 66]
         @ replicate ((W - total_len True main_code [65, 66] mod W) mod W) False"
proof -
  have h: "\<forall>symb\<in>set [65, 66]. assigned True main_code symb"
    by (simp add: assigned_A assigned_B)
  from encode_bits [OF wf_main_code masked_main_code h]
    wf_main_code masked_main_code assigned_A assigned_B fits_A fits_B encode_AB
  show ?thesis by blast
qed

text \<open>
  Without the condition on the content bits the claim fails. In \<open>unmasked_code\<close> the
  codeword of \<open>'A'\<close> has length 1 and the content word \<open>0x03\<close>: the input \<open>"A"\<close> gives the
  word \<open>0x03\<close>, whose second bit is neither a codeword bit nor zero padding.
\<close>

theorem encode_bits_counterexample:
  "wf_table unmasked_code \<and> assigned True unmasked_code 65
   \<and> encode True unmasked_code [65] = Inr [3]
   \<and> stream_bits [3]
       \<noteq> code_bits True unmasked_code [65]
         @ replicate ((W - total_len True unmasked_code [65] mod W) mod W) False"
proof -
  have "assigned True unmasked_code 65"
    by (simp add: assigned_def lookup_def sym_index_def table_defs)
  moreover have "encode True unmasked_code [65] = Inr [3]"
    by (simp add: model_defs table_defs)
  moreover have "code_bits True unmasked_code [65] = [True]"
    by (simp add: code_bits_def sym_bits_def cw_bits_def cw_bit_def lookup_def sym_index_def
        table_defs W_def)
  moreover have "total_len True unmasked_code [65] = 1"
    by (simp add: total_len_def sym_len_def lookup_def sym_index_def table_defs)
  ultimately show ?thesis
    using wf_unmasked_code by (simp add: word_bits_3 replicate_7 W_def)
qed

section \<open>Chunks\<close>

text \<open>
  Claim C2. Packing an input in one call and packing its chunks one after the other
  should give the same words. \<open>encode\<close> starts from \<open>buf = 0\<close>, \<open>offset = 0\<close> and writes
  the last partial word on every call, and \<open>main\<close> calls it once for each chunk that
  \<open>read\<close> returns: the input \<open>"AB"\<close> gives the one word \<open>0x05\<close> in one chunk, and the two
  words \<open>0x01\<close>, \<open>0x02\<close> when it arrives as \<open>"A"\<close> and then \<open>"B"\<close>.
\<close>

theorem chunks_change_output:
  "encode True main_code [65, 66] = Inr [5]
   \<and> main_loop True [[65, 66]] = Inr [5]
   \<and> main_loop True [[65], [66]] = Inr [1, 2]"
  by (simp add: main_loop_def model_defs table_defs)

section \<open>The tail read\<close>

text \<open>
  Claim C3. The tail read \<open>cw->bits[num_words]\<close> should stay inside the content array
  for every length up to \<open>MAX_CODEWORD_BITS\<close> and every offset below \<open>W\<close>. The array has
  \<open>NUM_WORDS = 32\<close> words; with the length 256 and the offset 0 the index is 32, one
  past the last word, and the pass stops with \<open>OutOfBounds\<close>. (By \<open>tail_read_in_range\<close>
  the index is inside the array exactly when \<open>offset + len < MAX_CODEWORD_BITS\<close>.)
\<close>

theorem tail_read_out_of_range:
  "len long_cw = MAX_CODEWORD_BITS \<and> offset init_acc = 0
   \<and> num_words (offset init_acc) (len long_cw) = NUM_WORDS
   \<and> read_bits long_cw (num_words (offset init_acc) (len long_cw)) = Inl OutOfBounds
   \<and> merge long_cw init_acc = Inl OutOfBounds
   \<and> encode True long_code [65] = Inl OutOfBounds"
  by (simp add: model_defs table_defs)

section \<open>The carry\<close>

text \<open>
  Claim C4, amended. For every offset below \<open>W\<close> the carry is defined: the shift count
  \<open>W - offset\<close> is at most \<open>W\<close>, below the 32 bits of the promoted operand, and the carry
  is 0 when the offset is 0 and the content word shifted right by \<open>W - offset\<close>
  otherwise. Both cases come from the one shift of line 45; no case is set apart.
\<close>

theorem carry_defined:
  assumes "off < W"
  shows "carry_shift off \<le> W \<and> carry_shift off < LENGTH(32)
       \<and> carry c off = ucast (drop_bit (carry_shift off) (ucast c :: 32 word))
       \<and> carry c off = (if off = 0 then 0 else drop_bit (W - off) c)"
proof -
  from assms have "off \<le> 8" by (simp add: W_def)
  from carry_eq [OF this, of c] carry_0 [of c] assms show ?thesis
    by (auto simp: carry_shift_def carry_def W_def)
qed

theorem carry_defined_witness:
  "(0 :: nat) < W \<and> carry_shift 0 \<le> W \<and> carry_shift 0 < LENGTH(32)
   \<and> carry 255 0 = ucast (drop_bit (carry_shift 0) (ucast (255 :: word_t) :: 32 word))
   \<and> carry 255 0 = (if (0 :: nat) = 0 then 0 else drop_bit (W - 0) 255)"
proof -
  have h: "(0 :: nat) < W" by (simp add: W_def)
  from carry_defined [OF h, of 255] h show ?thesis by blast
qed

text \<open>
  At the offset 0 the shift count is \<open>W\<close>, the full width of \<open>word_t\<close>, and the carry is
  the result of that shift: the shift by the full width is performed.
\<close>

theorem carry_shift_counterexample:
  "carry_shift 0 = W \<and> W = LENGTH(8)
   \<and> carry 255 0 = ucast (drop_bit W (ucast (255 :: word_t) :: 32 word))"
  by (simp add: carry_def carry_shift_def W_def)

section \<open>Codewords of length 0\<close>

text \<open>
  Claim C5, amended. For a symbol whose table entry has the length 0 the pass raises no
  error: it writes no word, leaves the offset as it is and ORs the first content word
  of the entry, shifted by the offset, into the buffer; the buffer too is unchanged when
  that word is 0, as in the table of \<open>main\<close>.
\<close>

theorem merge_zero_length:
  assumes "lookup sg code symb = Inr cw" and "len cw = 0" and "offset acc < W"
  shows "merge_sym sg code symb acc
           = Inr ([], acc\<lparr>buf := buf acc OR push_bit (offset acc) (bits cw 0)\<rparr>)
       \<and> (bits cw 0 = 0 \<longrightarrow> merge_sym sg code symb acc = Inr ([], acc))"
  using assms
  by (simp add: merge_sym_def merge_def num_words_def copy_words.simps read_bits_def
      or_shifted_eq W_def NUM_WORDS_def MAX_CODEWORD_BITS_def)

theorem merge_zero_length_witness:
  "lookup True main_code 90 = Inr zero_cw \<and> len zero_cw = 0 \<and> offset init_acc < W
   \<and> merge_sym True main_code 90 init_acc
       = Inr ([], init_acc\<lparr>buf := buf init_acc OR push_bit (offset init_acc) (bits zero_cw 0)\<rparr>)
   \<and> bits zero_cw 0 = 0
   \<and> merge_sym True main_code 90 init_acc = Inr ([], init_acc)"
proof -
  have h1: "lookup True main_code 90 = Inr zero_cw"
    by (simp add: lookup_def sym_index_def table_defs)
  have h2: "len zero_cw = 0" and h3: "offset init_acc < W" and h4: "bits zero_cw 0 = 0"
    by (simp_all add: zero_cw_def init_acc_def W_def)
  from merge_zero_length [OF h1 h2 h3] h1 h2 h3 h4 show ?thesis by blast
qed

text \<open>
  The symbol \<open>'Z'\<close> (90) has the length 0 in the table of \<open>main\<close>. The pass returns
  normally, and \<open>"AZB"\<close> is packed like \<open>"AB"\<close>.
\<close>

theorem merge_zero_length_counterexample:
  "sym_len True main_code 90 = 0
   \<and> merge_sym True main_code 90 init_acc = Inr ([], init_acc)
   \<and> encode True main_code [65, 90, 66] = Inr [5]"
  by (simp add: sym_len_def model_defs table_defs)

section \<open>The table index\<close>

text \<open>
  Claim C6. Every input byte from 0 to 255 should select an entry of the table. The
  index is a plain \<open>char\<close>: where \<open>char\<close> is signed, the byte \<open>0x80\<close> is the index -128,
  before the start of the table. (Where \<open>char\<close> is unsigned every byte selects its own
  entry: \<open>lookup_unsigned\<close>.)
\<close>

theorem lookup_signed_char:
  "sym_index True 128 = - 128
   \<and> lookup True main_code 128 = Inl OutOfBounds
   \<and> encode True main_code [128] = Inl OutOfBounds"
  by (simp add: model_defs table_defs)

section \<open>The number of words written\<close>




section \<open>Content bits past the length\<close>

text \<open>
  Claim C8, amended. The words written depend on the content bits below \<open>len + W\<close>:
  two tables that agree on the length of every entry and on every content bit below
  that length plus \<open>W\<close> give the same result on every input, whatever the bits from
  \<open>len + W\<close> on are.
\<close>

theorem encode_agree:
  assumes "wf_table code" and "agree_table W code code'"
  shows "encode sg code input = encode sg code' input"
  using encode_loop_agree [OF assms(2), of init_acc sg input]
  by (simp add: encode_def init_acc_def W_def)

text \<open>
  \<open>far_code\<close> differs from the table of \<open>main\<close> in bit 9 of the content of \<open>'A'\<close>. Eight
  times \<open>'A'\<close> reads the second content word of \<open>'A'\<close> once, at the offset 7.
\<close>

theorem encode_agree_witness:
  "wf_table main_code \<and> agree_table W main_code far_code
   \<and> encode True main_code [65, 65, 65, 65, 65, 65, 65, 65]
       = encode True far_code [65, 65, 65, 65, 65, 65, 65, 65]"
proof -
  have k: "k < 8 \<or> k = 8" if "k < 9" for k :: nat
    using that by arith
  have "agree_cw W (short_cw 1 1) \<lparr>len = 1, bits = (\<lambda>_. 0)(0 := 1, 1 := 2)\<rparr>"
    by (auto simp: agree_cw_def cw_bit_def short_cw_def W_def dest!: k)
  then have h: "agree_table W main_code far_code"
    by (simp add: agree_table_def far_code_def main_code_def agree_cw_refl)
  from encode_agree [OF wf_main_code h] wf_main_code h show ?thesis by blast
qed

text \<open>
  The bits from \<open>len\<close> to \<open>len + W\<close> do matter: \<open>unmasked_code\<close> agrees with the table of
  \<open>main\<close> on every length and on every content bit below the length, and the input
  \<open>"A"\<close> gives \<open>0x01\<close> with one and \<open>0x03\<close> with the other.
\<close>

theorem encode_agree_counterexample:
  "agree_table 0 main_code unmasked_code
   \<and> encode True main_code [65] = Inr [1]
   \<and> encode True unmasked_code [65] = Inr [3]
   \<and> encode True main_code [65] \<noteq> encode True unmasked_code [65]"
proof -
  have "agree_cw 0 (short_cw 1 1) (short_cw 1 3)"
    by (simp add: agree_cw_def cw_bit_def short_cw_def W_def)
  then have "agree_table 0 main_code unmasked_code"
    by (simp add: agree_table_def unmasked_code_def main_code_def agree_cw_refl)
  moreover have "encode True main_code [65] = Inr [1]"
    and "encode True unmasked_code [65] = Inr [3]"
    by (simp_all add: model_defs table_defs)
  ultimately show ?thesis by simp
qed

section \<open>The last word\<close>




section \<open>The accumulator\<close>




end
